theory Spec2Isabelle
  imports Complex_Main "HOL-Library.Sublist"
begin

section \<open>Python strings\<close>

text \<open>
  A Python \<open>str\<close> is a sequence of Unicode code points and \<open>len\<close> counts code points,
  so a string is modelled as a list of code points (natural numbers).
  \<open>py\<close> turns an ASCII literal into such a string.
\<close>

type_synonym pystr = "nat list"

definition py :: "string \<Rightarrow> pystr" where
  "py s = map of_char s"

text \<open>
  The characters removed by \<open>str.strip()\<close> without argument: the code points for which
  \<open>str.isspace()\<close> holds.
\<close>

definition is_space :: "nat \<Rightarrow> bool" where
  "is_space c =
     ((9 \<le> c \<and> c \<le> 13) \<or> (28 \<le> c \<and> c \<le> 32) \<or> c = 133 \<or> c = 160 \<or> c = 5760 \<or>
      (8192 \<le> c \<and> c \<le> 8202) \<or> c = 8232 \<or> c = 8233 \<or> c = 8239 \<or> c = 8287 \<or>
      c = 12288)"

text \<open>\<open>s.strip()\<close>: leading and trailing whitespace removed.\<close>

definition strip :: "pystr \<Rightarrow> pystr" where
  "strip s = rev (dropWhile is_space (rev (dropWhile is_space s)))"

text \<open>\<open>" ".join(buffer)\<close>: the strings of the list separated by one space (code point 32).\<close>

fun space_join :: "pystr list \<Rightarrow> pystr" where
  "space_join [] = []"
| "space_join [p] = p"
| "space_join (p # q # ps) = p @ 32 # space_join (q # ps)"

text \<open>\<open>xs[:n]\<close> for an integer \<open>n\<close>: a negative bound counts from the end.\<close>

definition slice_to :: "'a list \<Rightarrow> int \<Rightarrow> 'a list" where
  "slice_to xs n =
     (if n < 0 then take (nat (int (length xs) + n)) xs else take (nat n) xs)"

section \<open>The chunk builder\<close>

text \<open>The three local variables of \<open>chunk_paragraphs\<close>.\<close>

record loop_state =
  chunks :: "pystr list"
  buffer :: "pystr list"
  buffer_len :: int

definition init_state :: loop_state where
  "init_state = \<lparr>chunks = [], buffer = [], buffer_len = 0\<rparr>"

text \<open>
  The flush, as it is written twice in the source:
  \<^verbatim>\<open>
  chunk = " ".join(buffer).strip()
  if len(chunk) >= min_chars:
      chunks.append(chunk)
  \<close>
\<close>

definition emit :: "int \<Rightarrow> pystr list \<Rightarrow> pystr list \<Rightarrow> pystr list" where
  "emit min_chars buf cs =
     (let chunk = strip (space_join buf)
      in if min_chars \<le> int (length chunk) then cs @ [chunk] else cs)"

text \<open>
  The \<open>for\<close> loop, by recursion on the paragraphs still to be read. The \<open>break\<close>
  returns the state at once and leaves the rest of the input unread.
\<close>

fun chunk_loop :: "int \<Rightarrow> int \<Rightarrow> int \<Rightarrow> pystr list \<Rightarrow> loop_state \<Rightarrow> loop_state" where
  "chunk_loop max_chars min_chars max_chunks [] s = s"
| "chunk_loop max_chars min_chars max_chunks (paragraph # rest) s =
     (if buffer s \<noteq> [] \<and> max_chars < buffer_len s + int (length paragraph) + 1 then
        (let cs = emit min_chars (buffer s) (chunks s) in
         if max_chunks \<le> int (length cs) then
           \<lparr>chunks = cs, buffer = [], buffer_len = 0\<rparr>
         else
           chunk_loop max_chars min_chars max_chunks rest
             \<lparr>chunks = cs, buffer = [paragraph],
              buffer_len = 0 + (int (length paragraph) + 1)\<rparr>)
      else
        chunk_loop max_chars min_chars max_chunks rest
          \<lparr>chunks = chunks s, buffer = buffer s @ [paragraph],
           buffer_len = buffer_len s + (int (length paragraph) + 1)\<rparr>)"

text \<open>The code after the loop: the last flush and the final slice.\<close>

definition finish :: "int \<Rightarrow> int \<Rightarrow> loop_state \<Rightarrow> pystr list" where
  "finish min_chars max_chunks s =
     slice_to
       (if buffer s \<noteq> [] \<and> int (length (chunks s)) < max_chunks
        then emit min_chars (buffer s) (chunks s) else chunks s)
       max_chunks"

definition chunk_paragraphs :: "pystr list \<Rightarrow> int \<Rightarrow> int \<Rightarrow> int \<Rightarrow> pystr list" where
  "chunk_paragraphs paragraphs max_chars min_chars max_chunks =
     finish min_chars max_chunks
       (chunk_loop max_chars min_chars max_chunks paragraphs init_state)"

section \<open>The buffers the loop flushes\<close>

text \<open>
  The trace of the flushes: \<open>flushed_loop\<close> is the recursion of \<open>chunk_loop\<close>, with the same
  tests and the same next state, and returns the buffers the loop joins at its flushes, in
  the order of the flushes, whether the joined text is then appended to \<open>chunks\<close> or not.
  \<open>flushed\<close> adds the buffer of the flush after the loop, when that flush is made.
\<close>

fun flushed_loop :: "int \<Rightarrow> int \<Rightarrow> int \<Rightarrow> pystr list \<Rightarrow> loop_state \<Rightarrow> pystr list list" where
  "flushed_loop max_chars min_chars max_chunks [] s = []"
| "flushed_loop max_chars min_chars max_chunks (paragraph # rest) s =
     (if buffer s \<noteq> [] \<and> max_chars < buffer_len s + int (length paragraph) + 1 then
        (let cs = emit min_chars (buffer s) (chunks s) in
         if max_chunks \<le> int (length cs) then
           [buffer s]
         else
           buffer s #
           flushed_loop max_chars min_chars max_chunks rest
             \<lparr>chunks = cs, buffer = [paragraph],
              buffer_len = 0 + (int (length paragraph) + 1)\<rparr>)
      else
        flushed_loop max_chars min_chars max_chunks rest
          \<lparr>chunks = chunks s, buffer = buffer s @ [paragraph],
           buffer_len = buffer_len s + (int (length paragraph) + 1)\<rparr>)"

definition flushed :: "pystr list \<Rightarrow> int \<Rightarrow> int \<Rightarrow> int \<Rightarrow> pystr list list" where
  "flushed paragraphs max_chars min_chars max_chunks =
     (let s = chunk_loop max_chars min_chars max_chunks paragraphs init_state
      in flushed_loop max_chars min_chars max_chunks paragraphs init_state @
         (if buffer s \<noteq> [] \<and> int (length (chunks s)) < max_chunks then [buffer s] else []))"

section \<open>Notions used by the properties\<close>

text \<open>The text a buffer is flushed to, and the test that lets it into the output.\<close>

definition render :: "pystr list \<Rightarrow> pystr" where
  "render buf = strip (space_join buf)"

definition accepted :: "int \<Rightarrow> pystr list \<Rightarrow> bool" where
  "accepted min_chars buf = (min_chars \<le> int (length (render buf)))"

text \<open>The value \<open>buffer_len\<close> has for a buffer: each paragraph counted with one separator.\<close>

fun buf_total :: "pystr list \<Rightarrow> int" where
  "buf_total [] = 0"
| "buf_total (p # ps) = (int (length p) + 1) + buf_total ps"

text \<open>A paragraph is trimmed when \<open>strip\<close> leaves it as it is.\<close>

definition trimmed :: "pystr \<Rightarrow> bool" where
  "trimmed p = (strip p = p)"

text \<open>
  What the loop guarantees of every buffer it flushes: it is not empty, and it holds one
  paragraph or its counter is within \<open>max_chars\<close>.
\<close>

definition fits :: "int \<Rightarrow> pystr list \<Rightarrow> bool" where
  "fits mx g = (g \<noteq> [] \<and> (length g = 1 \<or> buf_total g \<le> mx))"

section \<open>The chunk builder as a relation\<close>

text \<open>
  The same loop, written as a relation between the state before and the state after:
  \<open>loop_exec max_chars min_chars max_chunks ps s n s'\<close> holds when the \<open>for\<close> loop
  over the paragraphs \<open>ps\<close>, entered in state \<open>s\<close>, leaves in state \<open>s'\<close> after its body has
  run \<open>n\<close> times. There is one rule for the exhausted input and one for each path through
  the body; a state from which no rule applies would be a run that does not return.
\<close>

inductive loop_exec ::
  "int \<Rightarrow> int \<Rightarrow> int \<Rightarrow> pystr list \<Rightarrow> loop_state \<Rightarrow> nat \<Rightarrow> loop_state \<Rightarrow> bool"
  for max_chars min_chars max_chunks :: int
where
  exhausted:
    "loop_exec max_chars min_chars max_chunks [] s 0 s"
| flush_break:
    "buffer s \<noteq> [] \<Longrightarrow> max_chars < buffer_len s + int (length paragraph) + 1 \<Longrightarrow>
     cs = emit min_chars (buffer s) (chunks s) \<Longrightarrow> max_chunks \<le> int (length cs) \<Longrightarrow>
     loop_exec max_chars min_chars max_chunks (paragraph # rest) s 1
       \<lparr>chunks = cs, buffer = [], buffer_len = 0\<rparr>"
| flush_append:
    "buffer s \<noteq> [] \<Longrightarrow> max_chars < buffer_len s + int (length paragraph) + 1 \<Longrightarrow>
     cs = emit min_chars (buffer s) (chunks s) \<Longrightarrow> int (length cs) < max_chunks \<Longrightarrow>
     loop_exec max_chars min_chars max_chunks rest
       \<lparr>chunks = cs, buffer = [paragraph], buffer_len = 0 + (int (length paragraph) + 1)\<rparr>
       n s' \<Longrightarrow>
     loop_exec max_chars min_chars max_chunks (paragraph # rest) s (Suc n) s'"
| append:
    "\<not> (buffer s \<noteq> [] \<and> max_chars < buffer_len s + int (length paragraph) + 1) \<Longrightarrow>
     loop_exec max_chars min_chars max_chunks rest
       \<lparr>chunks = chunks s, buffer = buffer s @ [paragraph],
        buffer_len = buffer_len s + (int (length paragraph) + 1)\<rparr>
       n s' \<Longrightarrow>
     loop_exec max_chars min_chars max_chunks (paragraph # rest) s (Suc n) s'"

code_pred (modes: i \<Rightarrow> i \<Rightarrow> i \<Rightarrow> i \<Rightarrow> i \<Rightarrow> o \<Rightarrow> o \<Rightarrow> bool) loop_exec .

text \<open>
  A run of the whole function: the loop from the initial state, then the code after the
  loop. \<open>n\<close> is the number of times the loop body has run.
\<close>

inductive chunk_paragraphs_exec ::
  "pystr list \<Rightarrow> int \<Rightarrow> int \<Rightarrow> int \<Rightarrow> nat \<Rightarrow> pystr list \<Rightarrow> bool"
where
  returns:
    "loop_exec max_chars min_chars max_chunks paragraphs init_state n s \<Longrightarrow>
     out = finish min_chars max_chunks s \<Longrightarrow>
     chunk_paragraphs_exec paragraphs max_chars min_chars max_chunks n out"

code_pred (modes: i \<Rightarrow> i \<Rightarrow> i \<Rightarrow> i \<Rightarrow> o \<Rightarrow> o \<Rightarrow> bool) chunk_paragraphs_exec .

section \<open>The pipeline around the chunk builder\<close>

text \<open>
  What \<open>main\<close> and \<open>fetch_embedding\<close> can raise. The text of a message is left out.
\<close>

datatype error =
  SystemExit string
| RequestException
| RuntimeError
| PayloadError
| ValueError

text \<open>
  What one call of \<open>requests.post\<close> comes back with: it raises (no connection, timeout),
  or it returns a response with a status code and a body. Of the body only
  \<open>payload["data"][0]["embedding"]\<close> is read: \<open>None\<close> stands for a body without it. The
  numbers of a vector are floats; nothing here looks at their values, so they are reals.
\<close>

datatype outcome =
  Raises
| Response (status_code: int) (embedding_of: "real list option")

definition DIM :: nat where
  "DIM = 1536"

definition fetch_embedding :: "outcome \<Rightarrow> error + real list" where
  "fetch_embedding response =
     (case response of
        Raises \<Rightarrow> Inl RequestException
      | Response status payload \<Rightarrow>
          if status \<noteq> 200 then Inl RuntimeError
          else (case payload of
                  None \<Rightarrow> Inl PayloadError
                | Some embedding \<Rightarrow>
                    if length embedding \<noteq> DIM then Inl ValueError else Inr embedding))"

text \<open>
  The loop of \<open>main\<close> over \<open>enumerate(chunks)\<close>. The provider is outside the program:
  \<open>post idx chunk\<close> is what the request for the chunk at index \<open>idx\<close> comes back with.
  An exception leaves the loop at once.
\<close>

fun embed_chunks ::
  "(nat \<Rightarrow> pystr \<Rightarrow> outcome) \<Rightarrow> nat \<Rightarrow> pystr list \<Rightarrow> (pystr \<times> real list) list \<Rightarrow>
   error + (pystr \<times> real list) list" where
  "embed_chunks post idx [] dataset = Inr dataset"
| "embed_chunks post idx (chunk # rest) dataset =
     (case fetch_embedding (post idx chunk) of
        Inl e \<Rightarrow> Inl e
      | Inr embedding \<Rightarrow> embed_chunks post (idx + 1) rest (dataset @ [(chunk, embedding)]))"

text \<open>
  The command line, and what \<open>main\<close> reads of the world: whether the PDF exists, the
  environment variable, the paragraphs \<open>extract_paragraphs\<close> returns, and the provider.
\<close>

record args =
  max_chars :: int
  min_chars :: int
  max_chunks :: int

record env =
  pdf_exists :: bool
  api_key :: "pystr option"
  extracted :: "pystr list"
  post :: "nat \<Rightarrow> pystr \<Rightarrow> outcome"

text \<open>
  What a run of \<open>main\<close> leaves: the exception it ended with, if any, and the dataset whose
  SQL text (\<open>build_sql\<close>) it wrote to the output file, if it wrote the file.
\<close>

record run =
  raised :: "error option"
  written :: "(pystr \<times> real list) list option"

definition main :: "args \<Rightarrow> env \<Rightarrow> run" where
  "main a w =
     (if \<not> pdf_exists w then
        \<lparr>raised = Some (SystemExit ''PDF not found''), written = None\<rparr>
      else if api_key w = None \<or> api_key w = Some [] then
        \<lparr>raised = Some (SystemExit ''OPENAI_API_KEY is required to generate embeddings.''),
         written = None\<rparr>
      else if extracted w = [] then
        \<lparr>raised = Some (SystemExit ''No text extracted from PDF.''), written = None\<rparr>
      else
        (let chunks = chunk_paragraphs (extracted w) (max_chars a) (min_chars a) (max_chunks a)
         in if chunks = [] then
              \<lparr>raised = Some (SystemExit ''Chunking produced no output.''), written = None\<rparr>
            else
              (case embed_chunks (post w) 0 chunks [] of
                 Inl e \<Rightarrow> \<lparr>raised = Some e, written = None\<rparr>
               | Inr dataset \<Rightarrow> \<lparr>raised = None, written = Some dataset\<rparr>)))"

text \<open>An embedding request succeeds: status 200 and a vector of \<open>DIM\<close> numbers.\<close>

definition embedding_ok :: "outcome \<Rightarrow> bool" where
  "embedding_ok response =
     (case response of
        Raises \<Rightarrow> False
      | Response status payload \<Rightarrow>
          status = 200 \<and> (case payload of None \<Rightarrow> False | Some e \<Rightarrow> length e = DIM))"

section \<open>Properties\<close>

subsection \<open>Stripping and joining\<close>

lemma length_strip_le: "length (strip s) \<le> length s"
proof -
  have "length (strip s) \<le> length (dropWhile is_space s)"
    unfolding strip_def using length_dropWhile_le [of is_space "rev (dropWhile is_space s)"] by simp
  also have "\<dots> \<le> length s" by (rule length_dropWhile_le)
  finally show ?thesis .
qed

lemma strip_Nil: "strip [] = []"
  by (simp add: strip_def)


lemma concat_replicate_single: "concat (replicate n [x]) = replicate n x"
  by (induction n) auto

lemma strip_replicate: "\<not> is_space x \<Longrightarrow> strip (replicate n x) = replicate n x"
  by (simp add: strip_def dropWhile_eq_self_iff hd_replicate)

text \<open>
  C5. On the paragraphs \<open>["A"*50, "B"*80]\<close> with \<open>max_chars = 60\<close>, \<open>min_chars = 10\<close> and
  \<open>max_chunks = 10\<close> the result is exactly the two chunks \<open>"A"*50\<close> and \<open>"B"*80\<close>, in
  this order.
\<close>

theorem scenario_two_chunks:
  "chunk_paragraphs [concat (replicate 50 (py ''A'')), concat (replicate 80 (py ''B''))] 60 10 10
     = [concat (replicate 50 (py ''A'')), concat (replicate 80 (py ''B''))]"
proof -
  define a where "a = concat (replicate 50 (py ''A''))"
  define b where "b = concat (replicate 80 (py ''B''))"
  have a: "a = replicate 50 65" by (simp add: a_def py_def concat_replicate_single)
  have b: "b = replicate 80 66" by (simp add: b_def py_def concat_replicate_single)
  have la: "length a = 50" and lb: "length b = 80" by (simp_all add: a b)
  have sa: "strip a = a" and sb: "strip b = b"
    unfolding a b by (rule strip_replicate, simp add: is_space_def)+
  have "chunk_paragraphs [a, b] 60 10 10 = [a, b]"
    by (simp add: chunk_paragraphs_def init_state_def finish_def emit_def slice_to_def
        la lb sa sb)
  then show ?thesis by (simp only: a_def b_def)
qed

subsection \<open>What the loop keeps true\<close>

lemma buf_total_append: "buf_total (xs @ ys) = buf_total xs + buf_total ys"
  by (induction xs) auto

lemma length_space_join: "g \<noteq> [] \<Longrightarrow> int (length (space_join g)) = buf_total g - 1"
  by (induction g rule: space_join.induct) auto

lemma emit_eq: "emit mn buf cs = cs @ map render (filter (accepted mn) [buf])"
  by (simp add: emit_def accepted_def render_def Let_def)

lemma chunk_loop_segments:
  assumes "buffer_len s = buf_total (buffer s)"
    and "buffer s = [] \<or> fits mx (buffer s)"
  shows "\<exists>segs rest.
           buffer s @ ps = concat segs @ buffer (chunk_loop mx mn mc ps s) @ rest \<and>
           chunks (chunk_loop mx mn mc ps s) = chunks s @ map render (filter (accepted mn) segs) \<and>
           list_all (fits mx) segs \<and>
           (buffer (chunk_loop mx mn mc ps s) = [] \<or> fits mx (buffer (chunk_loop mx mn mc ps s)))"
  using assms
proof (induction ps arbitrary: s)
  case Nil
  have "buffer s @ [] = concat [] @ buffer s @ []" by simp
  with Nil show ?case by (intro exI [of _ "[]"]) auto
next
  case (Cons p ps)
  let ?over = "buffer s \<noteq> [] \<and> mx < buffer_len s + int (length p) + 1"
  show ?case
  proof (cases ?over)
    case over: True
    then have fit: "fits mx (buffer s)" using Cons.prems(2) by simp
    let ?cs = "emit mn (buffer s) (chunks s)"
    show ?thesis
    proof (cases "mc \<le> int (length ?cs)")
      case True
      then have eq: "chunk_loop mx mn mc (p # ps) s = \<lparr>chunks = ?cs, buffer = [], buffer_len = 0\<rparr>"
        using over by (simp add: Let_def)
      show ?thesis unfolding eq
        by (rule exI [of _ "[buffer s]"], rule exI [of _ "p # ps"]) (simp add: emit_eq fit)
    next
      case False
      let ?s1 = "\<lparr>chunks = ?cs, buffer = [p], buffer_len = 0 + (int (length p) + 1)\<rparr>"
      from False over have eq: "chunk_loop mx mn mc (p # ps) s = chunk_loop mx mn mc ps ?s1"
        by (simp add: Let_def)
      have "buffer_len ?s1 = buf_total (buffer ?s1)" by simp
      moreover have "buffer ?s1 = [] \<or> fits mx (buffer ?s1)" by (simp add: fits_def)
      ultimately obtain segs rest where
          a: "buffer ?s1 @ ps = concat segs @ buffer (chunk_loop mx mn mc ps ?s1) @ rest"
        and b: "chunks (chunk_loop mx mn mc ps ?s1) = chunks ?s1 @ map render (filter (accepted mn) segs)"
        and c: "list_all (fits mx) segs"
        and d: "buffer (chunk_loop mx mn mc ps ?s1) = [] \<or> fits mx (buffer (chunk_loop mx mn mc ps ?s1))"
        using Cons.IH [of ?s1] by blast
      show ?thesis unfolding eq
        apply (rule exI [of _ "buffer s # segs"], rule exI [of _ rest])
        using a b c d fit by (simp add: emit_eq)
    qed
  next
    case False
    let ?s1 = "\<lparr>chunks = chunks s, buffer = buffer s @ [p],
                buffer_len = buffer_len s + (int (length p) + 1)\<rparr>"
    from False have eq: "chunk_loop mx mn mc (p # ps) s = chunk_loop mx mn mc ps ?s1"
      by auto
    have "buffer_len ?s1 = buf_total (buffer ?s1)"
      using Cons.prems(1) by (simp add: buf_total_append)
    moreover have "buffer ?s1 = [] \<or> fits mx (buffer ?s1)"
      using False Cons.prems(1) by (auto simp: fits_def buf_total_append)
    ultimately obtain segs rest where
        a: "buffer ?s1 @ ps = concat segs @ buffer (chunk_loop mx mn mc ps ?s1) @ rest"
      and b: "chunks (chunk_loop mx mn mc ps ?s1) = chunks ?s1 @ map render (filter (accepted mn) segs)"
      and c: "list_all (fits mx) segs"
      and d: "buffer (chunk_loop mx mn mc ps ?s1) = [] \<or> fits mx (buffer (chunk_loop mx mn mc ps ?s1))"
      using Cons.IH [of ?s1] by blast
    show ?thesis unfolding eq
      apply (rule exI [of _ segs], rule exI [of _ rest])
      using a b c d by simp
  qed
qed

lemma length_emit: "length (emit mn buf cs) \<le> Suc (length cs)" "length cs \<le> length (emit mn buf cs)"
  by (simp_all add: emit_def Let_def)

lemma chunk_loop_count:
  "int (length (chunks s)) < mc \<Longrightarrow> int (length (chunks (chunk_loop mx mn mc ps s))) \<le> mc"
proof (induction ps arbitrary: s)
  case Nil
  then show ?case by simp
next
  case (Cons p ps)
  have "int (length (emit mn (buffer s) (chunks s))) \<le> mc"
    using Cons.prems length_emit(1) [of mn "buffer s" "chunks s"] by linarith
  with Cons show ?case by (auto simp: Let_def)
qed

lemma chunk_loop_nonpos:
  "mc \<le> 0 \<Longrightarrow> chunks s = [] \<Longrightarrow> length (chunks (chunk_loop mx mn mc ps s)) \<le> 1"
proof (induction ps arbitrary: s)
  case Nil
  then show ?case by simp
next
  case (Cons p ps)
  have "length (emit mn (buffer s) []) \<le> 1"
    using length_emit(1) [of mn "buffer s" "[]"] by simp
  with Cons show ?case by (auto simp: Let_def)
qed

lemma chunk_paragraphs_nonpos:
  assumes "mc \<le> 0"
  shows "chunk_paragraphs ps mx mn mc = []"
proof -
  let ?s = "chunk_loop mx mn mc ps init_state"
  have len: "length (chunks ?s) \<le> 1"
    using assms by (intro chunk_loop_nonpos) (simp_all add: init_state_def)
  have "\<not> int (length (chunks ?s)) < mc" using assms by simp
  then have "chunk_paragraphs ps mx mn mc = slice_to (chunks ?s) mc"
    by (simp add: chunk_paragraphs_def finish_def)
  also have "\<dots> = []" using assms len by (auto simp: slice_to_def)
  finally show ?thesis .
qed

lemma chunk_paragraphs_pos:
  assumes "0 < mc"
  shows "chunk_paragraphs ps mx mn mc =
          (let s = chunk_loop mx mn mc ps init_state
           in if buffer s \<noteq> [] \<and> int (length (chunks s)) < mc
              then emit mn (buffer s) (chunks s) else chunks s)"
proof -
  let ?s = "chunk_loop mx mn mc ps init_state"
  let ?cs = "if buffer ?s \<noteq> [] \<and> int (length (chunks ?s)) < mc
              then emit mn (buffer ?s) (chunks ?s) else chunks ?s"
  have "int (length (chunks ?s)) \<le> mc"
    using assms by (intro chunk_loop_count) (simp add: init_state_def)
  then have "int (length ?cs) \<le> mc"
    using length_emit(1) [of mn "buffer ?s" "chunks ?s"] by auto
  then have "slice_to ?cs mc = ?cs" using assms by (simp add: slice_to_def)
  then show ?thesis by (simp add: chunk_paragraphs_def finish_def Let_def)
qed

lemma chunk_paragraphs_segments:
  "\<exists>segs rest. ps = concat segs @ rest \<and> list_all (fits mx) segs \<and>
      chunk_paragraphs ps mx mn mc = map render (filter (accepted mn) segs)"
proof (cases "0 < mc")
  case False
  then have "chunk_paragraphs ps mx mn mc = []" by (simp add: chunk_paragraphs_nonpos)
  then show ?thesis by (intro exI [of _ "[]"] exI [of _ ps]) simp
next
  case True
  let ?s = "chunk_loop mx mn mc ps init_state"
  obtain segs rest where
      a: "ps = concat segs @ buffer ?s @ rest"
    and b: "chunks ?s = map render (filter (accepted mn) segs)"
    and c: "list_all (fits mx) segs"
    and d: "buffer ?s = [] \<or> fits mx (buffer ?s)"
    using chunk_loop_segments [of init_state mx ps mn mc] by (auto simp: init_state_def)
  show ?thesis
  proof (cases "buffer ?s \<noteq> [] \<and> int (length (chunks ?s)) < mc")
    case True
    then have "chunk_paragraphs ps mx mn mc = emit mn (buffer ?s) (chunks ?s)"
      using \<open>0 < mc\<close> by (simp add: chunk_paragraphs_pos Let_def)
    with a b c d True show ?thesis
      by (intro exI [of _ "segs @ [buffer ?s]"] exI [of _ rest]) (simp add: emit_eq)
  next
    case False
    then have "chunk_paragraphs ps mx mn mc = chunks ?s"
      using \<open>0 < mc\<close> by (auto simp: chunk_paragraphs_pos Let_def)
    with a b c show ?thesis
      by (intro exI [of _ segs] exI [of _ "buffer ?s @ rest"]) simp
  qed
qed

lemma length_render_le: "g \<noteq> [] \<Longrightarrow> int (length (render g)) \<le> buf_total g - 1"
  using length_strip_le [of "space_join g"] length_space_join [of g]
  by (simp add: render_def)

lemma fits_render:
  assumes "fits mx g"
  shows "(\<exists>p. g = [p]) \<or> (2 \<le> length g \<and> int (length (render g)) \<le> mx - 1)"
proof (cases "length g = 1")
  case True
  then show ?thesis by (cases g) auto
next
  case False
  with assms have "g \<noteq> []" "buf_total g \<le> mx" by (auto simp: fits_def)
  moreover from False \<open>g \<noteq> []\<close> have "2 \<le> length g"
    using length_greater_0_conv [of g] by linarith
  ultimately show ?thesis using length_render_le [of g] by simp
qed

text \<open>
  C1. When every input paragraph is trimmed, each chunk of the result has at most
  \<open>max_chars\<close> characters, or it is one input paragraph, longer than \<open>max_chars\<close>, emitted
  unsplit as a chunk of its own.
\<close>

theorem chunk_within_max_or_single_paragraph:
  assumes "\<forall>p\<in>set ps. trimmed p"
    and "c \<in> set (chunk_paragraphs ps mx mn mc)"
  shows "int (length c) \<le> mx \<or> (c \<in> set ps \<and> mx < int (length c))"
proof -
  obtain segs rest where
      a: "ps = concat segs @ rest"
    and b: "list_all (fits mx) segs"
    and c: "chunk_paragraphs ps mx mn mc = map render (filter (accepted mn) segs)"
    using chunk_paragraphs_segments by blast
  from assms(2) c obtain g where g: "g \<in> set segs" "c = render g" by auto
  with b have "fits mx g" by (simp add: list_all_iff)
  then consider p where "g = [p]" | "int (length (render g)) \<le> mx - 1"
    using fits_render by blast
  then show ?thesis
  proof cases
    case 1
    with g have "p \<in> set (concat segs)" by (auto intro: bexI [of _ "[p]"])
    with a have "p \<in> set ps" by simp
    with assms(1) have "strip p = p" by (simp add: trimmed_def)
    with 1 g have "c = p" by (simp add: render_def)
    with \<open>p \<in> set ps\<close> show ?thesis by auto
  next
    case 2
    with g show ?thesis by simp
  qed
qed

lemma subseq_concat_filter: "subseq (concat (filter P xs)) (concat xs)"
  by (induction xs) (auto intro: list_emb_append_mono)

text \<open>
  C4. The chunks of the result are the texts of lists of paragraphs \<open>runs\<close> (the source
  paragraphs of each chunk) that, taken chunk by chunk in the order of the output, form a
  subsequence of the input: no paragraph is reordered, repeated or moved to another chunk.
\<close>

theorem chunks_preserve_paragraph_order:
  "\<exists>runs. chunk_paragraphs ps mx mn mc = map (\<lambda>run. strip (space_join run)) runs \<and>
          subseq (concat runs) ps \<and> [] \<notin> set runs"
proof -
  obtain segs rest where
      a: "ps = concat segs @ rest"
    and b: "list_all (fits mx) segs"
    and c: "chunk_paragraphs ps mx mn mc = map render (filter (accepted mn) segs)"
    using chunk_paragraphs_segments by blast
  let ?runs = "filter (accepted mn) segs"
  have "subseq (concat ?runs) (concat segs @ rest)"
    using subseq_concat_filter [of "accepted mn" segs] by (rule subseq_rev_drop_many)
  moreover have "[] \<notin> set ?runs" using b by (auto simp: list_all_iff fits_def)
  moreover have "map render ?runs = map (\<lambda>run. strip (space_join run)) ?runs"
    by (simp add: render_def)
  ultimately show ?thesis using a c by (intro exI [of _ ?runs]) simp
qed

subsection \<open>The bound on the number of chunks\<close>





text \<open>
  C9. When every input paragraph is trimmed: a chunk built from two or more paragraphs has
  at most \<open>max_chars - 1\<close> characters (the flush test counts one separator more than the
  joined text has), and a chunk of \<open>max_chars\<close> characters or more is a single input
  paragraph.
\<close>

theorem multi_paragraph_chunk_below_max:
  assumes "\<forall>p\<in>set ps. trimmed p"
  shows "(\<exists>segs rest. ps = concat segs @ rest \<and>
            chunk_paragraphs ps mx mn mc =
              map (\<lambda>g. strip (space_join g))
                (filter (\<lambda>g. mn \<le> int (length (strip (space_join g)))) segs) \<and>
            (\<forall>g\<in>set segs. g \<noteq> [] \<and>
               (2 \<le> length g \<longrightarrow> int (length (strip (space_join g))) \<le> mx - 1))) \<and>
         (\<forall>c\<in>set (chunk_paragraphs ps mx mn mc). mx \<le> int (length c) \<longrightarrow> c \<in> set ps)"
proof -
  obtain segs rest where
      a: "ps = concat segs @ rest"
    and b: "list_all (fits mx) segs"
    and c: "chunk_paragraphs ps mx mn mc = map render (filter (accepted mn) segs)"
    using chunk_paragraphs_segments by blast
  have e: "accepted mn = (\<lambda>g. mn \<le> int (length (strip (space_join g))))"
    and f: "render = (\<lambda>g. strip (space_join g))"
    by (auto simp: accepted_def render_def fun_eq_iff)
  have "\<forall>g\<in>set segs. g \<noteq> [] \<and> (2 \<le> length g \<longrightarrow> int (length (render g)) \<le> mx - 1)"
  proof
    fix g assume "g \<in> set segs"
    with b have "fits mx g" by (simp add: list_all_iff)
    then show "g \<noteq> [] \<and> (2 \<le> length g \<longrightarrow> int (length (render g)) \<le> mx - 1)"
      using fits_render [of mx g] by (auto simp: fits_def)
  qed
  with a c have 1: "\<exists>segs rest. ps = concat segs @ rest \<and>
            chunk_paragraphs ps mx mn mc =
              map (\<lambda>g. strip (space_join g))
                (filter (\<lambda>g. mn \<le> int (length (strip (space_join g)))) segs) \<and>
            (\<forall>g\<in>set segs. g \<noteq> [] \<and>
               (2 \<le> length g \<longrightarrow> int (length (strip (space_join g))) \<le> mx - 1))"
    unfolding e f by blast
  have 2: "\<forall>c\<in>set (chunk_paragraphs ps mx mn mc). mx \<le> int (length c) \<longrightarrow> c \<in> set ps"
  proof (intro ballI impI)
    fix c assume "c \<in> set (chunk_paragraphs ps mx mn mc)" "mx \<le> int (length c)"
    then obtain g where g: "g \<in> set segs" "c = render g" using c by auto
    with b have "fits mx g" by (simp add: list_all_iff)
    with \<open>mx \<le> int (length c)\<close> g obtain p where p: "g = [p]"
      using fits_render [of mx g] by auto
    with g have "p \<in> set (concat segs)" by (auto intro: bexI [of _ "[p]"])
    with a have "p \<in> set ps" by simp
    with assms have "strip p = p" by (simp add: trimmed_def)
    with p g \<open>p \<in> set ps\<close> show "c \<in> set ps" by (simp add: render_def)
  qed
  from 1 2 show ?thesis by blast
qed

subsection \<open>A worked input\<close>

lemma py_simps: "py [] = []" "py (c # cs) = of_char c # py cs"
  by (simp_all add: py_def)

lemma example_trimmed: "trimmed (py ''aaaa'')" "trimmed (py ''bbbbbbbb'')"
  by (simp_all add: trimmed_def strip_def is_space_def py_simps)

lemma example_strip: "strip (py ''aaaa'') = py ''aaaa''" "strip (py ''bbbbbbbb'') = py ''bbbbbbbb''"
  using example_trimmed by (simp_all add: trimmed_def)

lemma example_length: "length (py ''aaaa'') = 4" "length (py ''bbbbbbbb'') = 8" "length (py ''cc'') = 2"
  by (simp_all add: py_def)

lemma example_run:
  "chunk_paragraphs [py ''aaaa'', py ''bbbbbbbb''] 6 1 10 = [py ''aaaa'', py ''bbbbbbbb'']"
  by (simp add: chunk_paragraphs_def init_state_def finish_def emit_def slice_to_def
      example_strip example_length)


theorem chunk_within_max_or_single_paragraph_witness:
  "trimmed (py ''aaaa'') \<and> trimmed (py ''bbbbbbbb'') \<and>
   py ''bbbbbbbb'' \<in> set (chunk_paragraphs [py ''aaaa'', py ''bbbbbbbb''] 6 1 10) \<and>
   (int (length (py ''bbbbbbbb'')) \<le> 6 \<or>
    (py ''bbbbbbbb'' \<in> set [py ''aaaa'', py ''bbbbbbbb''] \<and> 6 < int (length (py ''bbbbbbbb''))))"
  using chunk_within_max_or_single_paragraph [of "[py ''aaaa'', py ''bbbbbbbb'']" "py ''bbbbbbbb''" 6 1 10]
  by (simp add: example_trimmed example_run)


theorem chunks_preserve_paragraph_order_witness:
  "\<exists>runs. chunk_paragraphs [py ''aaaa'', py ''bbbbbbbb''] 6 1 10 =
            map (\<lambda>run. strip (space_join run)) runs \<and>
          subseq (concat runs) [py ''aaaa'', py ''bbbbbbbb''] \<and> [] \<notin> set runs"
  using chunks_preserve_paragraph_order [of "[py ''aaaa'', py ''bbbbbbbb'']" 6 1 10] .

theorem multi_paragraph_chunk_below_max_witness:
  "trimmed (py ''aaaa'') \<and> trimmed (py ''bbbbbbbb'') \<and>
   py ''bbbbbbbb'' \<in> set (chunk_paragraphs [py ''aaaa'', py ''bbbbbbbb''] 6 1 10) \<and>
   6 \<le> int (length (py ''bbbbbbbb'')) \<and>
   py ''bbbbbbbb'' \<in> set [py ''aaaa'', py ''bbbbbbbb'']"
  using multi_paragraph_chunk_below_max [of "[py ''aaaa'', py ''bbbbbbbb'']" 6 1 10]
  by (simp add: example_trimmed example_run example_length)

subsection \<open>Trimmed paragraphs and the flushed buffers\<close>





lemma flushed_loop_structure:
  "\<exists>rest. buffer s @ ps =
            concat (flushed_loop mx mn mc ps s) @ buffer (chunk_loop mx mn mc ps s) @ rest \<and>
          (rest \<noteq> [] \<longrightarrow> mc \<le> int (length (chunks (chunk_loop mx mn mc ps s)))) \<and>
          chunks (chunk_loop mx mn mc ps s) =
            chunks s @ map render (filter (accepted mn) (flushed_loop mx mn mc ps s)) \<and>
          [] \<notin> set (flushed_loop mx mn mc ps s)"
proof (induction ps arbitrary: s)
  case Nil
  show ?case by (rule exI [of _ "[]"]) simp
next
  case (Cons p ps)
  show ?case
  proof (cases "buffer s \<noteq> [] \<and> mx < buffer_len s + int (length p) + 1")
    case over: True
    let ?cs = "emit mn (buffer s) (chunks s)"
    show ?thesis
    proof (cases "mc \<le> int (length ?cs)")
      case True
      with over have eq:
        "chunk_loop mx mn mc (p # ps) s = \<lparr>chunks = ?cs, buffer = [], buffer_len = 0\<rparr>"
        "flushed_loop mx mn mc (p # ps) s = [buffer s]"
        by (simp_all add: Let_def)
      show ?thesis unfolding eq
        using over True by (intro exI [of _ "p # ps"]) (auto simp: emit_eq)
    next
      case False
      let ?s1 = "\<lparr>chunks = ?cs, buffer = [p], buffer_len = 0 + (int (length p) + 1)\<rparr>"
      from False over have eq:
        "chunk_loop mx mn mc (p # ps) s = chunk_loop mx mn mc ps ?s1"
        "flushed_loop mx mn mc (p # ps) s = buffer s # flushed_loop mx mn mc ps ?s1"
        by (simp_all add: Let_def)
      from Cons.IH [of ?s1] obtain rest where
          a: "buffer ?s1 @ ps =
                concat (flushed_loop mx mn mc ps ?s1) @ buffer (chunk_loop mx mn mc ps ?s1) @ rest"
        and b: "rest \<noteq> [] \<longrightarrow> mc \<le> int (length (chunks (chunk_loop mx mn mc ps ?s1)))"
        and c: "chunks (chunk_loop mx mn mc ps ?s1) =
                  chunks ?s1 @ map render (filter (accepted mn) (flushed_loop mx mn mc ps ?s1))"
        and d: "[] \<notin> set (flushed_loop mx mn mc ps ?s1)"
        by blast
      show ?thesis unfolding eq
        using a b c d over by (intro exI [of _ rest]) (auto simp: emit_eq)
    qed
  next
    case False
    let ?s1 = "\<lparr>chunks = chunks s, buffer = buffer s @ [p],
                buffer_len = buffer_len s + (int (length p) + 1)\<rparr>"
    from False have eq:
      "chunk_loop mx mn mc (p # ps) s = chunk_loop mx mn mc ps ?s1"
      "flushed_loop mx mn mc (p # ps) s = flushed_loop mx mn mc ps ?s1"
      by auto
    from Cons.IH [of ?s1] obtain rest where
        a: "buffer ?s1 @ ps =
              concat (flushed_loop mx mn mc ps ?s1) @ buffer (chunk_loop mx mn mc ps ?s1) @ rest"
      and b: "rest \<noteq> [] \<longrightarrow> mc \<le> int (length (chunks (chunk_loop mx mn mc ps ?s1)))"
      and c: "chunks (chunk_loop mx mn mc ps ?s1) =
                chunks ?s1 @ map render (filter (accepted mn) (flushed_loop mx mn mc ps ?s1))"
      and d: "[] \<notin> set (flushed_loop mx mn mc ps ?s1)"
      by blast
    show ?thesis unfolding eq
      using a b c d by (intro exI [of _ rest]) simp
  qed
qed

lemma length_slice_to_ge:
  "mc \<le> int (length cs) \<Longrightarrow> mc \<le> int (length (slice_to cs mc))"
  by (auto simp: slice_to_def)

lemma flushed_structure:
  "(\<exists>rest. ps = concat (flushed ps mx mn mc) @ rest \<and>
       (rest \<noteq> [] \<longrightarrow> mc \<le> int (length (chunk_paragraphs ps mx mn mc)))) \<and>
   [] \<notin> set (flushed ps mx mn mc) \<and>
   chunk_paragraphs ps mx mn mc =
     slice_to (map render (filter (accepted mn) (flushed ps mx mn mc))) mc"
proof -
  let ?s = "chunk_loop mx mn mc ps init_state"
  let ?fl = "flushed_loop mx mn mc ps init_state"
  obtain rest where
      a: "ps = concat ?fl @ buffer ?s @ rest"
    and b: "rest \<noteq> [] \<longrightarrow> mc \<le> int (length (chunks ?s))"
    and c: "chunks ?s = map render (filter (accepted mn) ?fl)"
    and d: "[] \<notin> set ?fl"
    using flushed_loop_structure [of init_state ps mx mn mc] by (auto simp: init_state_def)
  show ?thesis
  proof (cases "buffer ?s \<noteq> [] \<and> int (length (chunks ?s)) < mc")
    case True
    then have fl: "flushed ps mx mn mc = ?fl @ [buffer ?s]"
      by (simp add: flushed_def Let_def)
    from True have out: "chunk_paragraphs ps mx mn mc = slice_to (emit mn (buffer ?s) (chunks ?s)) mc"
      by (simp add: chunk_paragraphs_def finish_def)
    from True b have "rest = []" by auto
    with a have 1: "ps = concat (flushed ps mx mn mc) @ []" unfolding fl by simp
    have 2: "[] \<notin> set (flushed ps mx mn mc)" unfolding fl using d True by auto
    have 3: "chunk_paragraphs ps mx mn mc =
        slice_to (map render (filter (accepted mn) (flushed ps mx mn mc))) mc"
      unfolding out fl by (simp add: emit_eq c)
    from 1 2 3 show ?thesis by blast
  next
    case False
    then have fl: "flushed ps mx mn mc = ?fl"
      by (auto simp: flushed_def Let_def)
    from False have out: "chunk_paragraphs ps mx mn mc = slice_to (chunks ?s) mc"
      by (auto simp: chunk_paragraphs_def finish_def)
    have 1: "ps = concat (flushed ps mx mn mc) @ (buffer ?s @ rest)" unfolding fl using a by simp
    have "mc \<le> int (length (chunk_paragraphs ps mx mn mc))" if "buffer ?s @ rest \<noteq> []"
    proof -
      from that b False have "mc \<le> int (length (chunks ?s))" by (cases "rest = []") auto
      then show ?thesis unfolding out by (rule length_slice_to_ge)
    qed
    with 1 have ex: "\<exists>rest. ps = concat (flushed ps mx mn mc) @ rest \<and>
       (rest \<noteq> [] \<longrightarrow> mc \<le> int (length (chunk_paragraphs ps mx mn mc)))" by blast
    have 2: "[] \<notin> set (flushed ps mx mn mc)" unfolding fl by (rule d)
    have 3: "chunk_paragraphs ps mx mn mc =
        slice_to (map render (filter (accepted mn) (flushed ps mx mn mc))) mc"
      unfolding out fl by (simp add: c)
    from ex 2 3 show ?thesis by blast
  qed
qed

lemma set_slice_to: "set (slice_to xs n) \<subseteq> set xs"
  by (auto simp: slice_to_def dest: in_set_takeD)

lemma example_drop_run:
  "chunk_paragraphs [py ''a'', py ''bb'', py ''c'', py ''dddd''] 6 3 10 = [py ''a bb'', py ''dddd'']"
  by (simp add: chunk_paragraphs_def init_state_def finish_def emit_def slice_to_def
      strip_def is_space_def py_simps)

lemma example_drop_flushed:
  "flushed [py ''a'', py ''bb'', py ''c'', py ''dddd''] 6 3 10 =
     [[py ''a'', py ''bb''], [py ''c''], [py ''dddd'']]"
  by (simp add: flushed_def init_state_def emit_def strip_def is_space_def py_simps)

text \<open>
  C3. Every chunk of the result has at least \<open>min_chars\<close> characters. The buffers the
  loop flushes are non-empty blocks of consecutive input paragraphs, one after the other in
  the input, so that a paragraph is in at most one of them; and the result is exactly the
  texts of the flushed buffers whose text has at least \<open>min_chars\<close> characters, one chunk
  for each, in order (under the final slice). A flushed buffer with a shorter text gives no
  chunk, and its paragraphs, which are in no other flushed buffer, are in no later chunk:
  nothing is carried forward or merged backward.
\<close>

theorem short_flush_is_dropped_for_good:
  "(\<forall>c\<in>set (chunk_paragraphs ps mx mn mc). mn \<le> int (length c)) \<and>
   (\<exists>rest. ps = concat (flushed ps mx mn mc) @ rest) \<and>
   [] \<notin> set (flushed ps mx mn mc) \<and>
   chunk_paragraphs ps mx mn mc =
     slice_to
       (map (\<lambda>g. strip (space_join g))
         (filter (\<lambda>g. mn \<le> int (length (strip (space_join g)))) (flushed ps mx mn mc)))
       mc"
proof -
  have e: "accepted mn = (\<lambda>g. mn \<le> int (length (strip (space_join g))))"
    and f: "render = (\<lambda>g. strip (space_join g))"
    by (auto simp: accepted_def render_def fun_eq_iff)
  note s = flushed_structure [of ps mx mn mc]
  from s have out: "chunk_paragraphs ps mx mn mc =
      slice_to (map render (filter (accepted mn) (flushed ps mx mn mc))) mc"
    by blast
  have 1: "\<forall>c\<in>set (chunk_paragraphs ps mx mn mc). mn \<le> int (length c)"
  proof
    fix c assume "c \<in> set (chunk_paragraphs ps mx mn mc)"
    then have "c \<in> set (slice_to (map render (filter (accepted mn) (flushed ps mx mn mc))) mc)"
      by (simp only: out)
    then have "c \<in> set (map render (filter (accepted mn) (flushed ps mx mn mc)))"
      by (rule subsetD [OF set_slice_to])
    then show "mn \<le> int (length c)" by (auto simp: accepted_def)
  qed
  from s have 2: "\<exists>rest. ps = concat (flushed ps mx mn mc) @ rest" by blast
  from s have 3: "[] \<notin> set (flushed ps mx mn mc)" by blast
  from out have 4: "chunk_paragraphs ps mx mn mc =
     slice_to
       (map (\<lambda>g. strip (space_join g))
         (filter (\<lambda>g. mn \<le> int (length (strip (space_join g)))) (flushed ps mx mn mc)))
       mc"
    unfolding e f .
  from 1 2 3 4 show ?thesis by (intro conjI)
qed

theorem short_flush_is_dropped_for_good_witness:
  "flushed [py ''a'', py ''bb'', py ''c'', py ''dddd''] 6 3 10 =
     [[py ''a'', py ''bb''], [py ''c''], [py ''dddd'']] \<and>
   int (length (strip (space_join [py ''c'']))) < 3 \<and>
   chunk_paragraphs [py ''a'', py ''bb'', py ''c'', py ''dddd''] 6 3 10 =
     [py ''a bb'', py ''dddd''] \<and>
   3 \<le> int (length (py ''a bb'')) \<and> 3 \<le> int (length (py ''dddd''))"
proof -
  from short_flush_is_dropped_for_good [of "[py ''a'', py ''bb'', py ''c'', py ''dddd'']" 6 3 10]
  have "\<forall>c\<in>set (chunk_paragraphs [py ''a'', py ''bb'', py ''c'', py ''dddd''] 6 3 10).
          3 \<le> int (length c)"
    by (rule conjunct1)
  then have "3 \<le> int (length (py ''a bb'')) \<and> 3 \<le> int (length (py ''dddd''))"
    unfolding example_drop_run by simp
  moreover have "int (length (strip (space_join [py ''c'']))) < 3"
    by (simp add: strip_def is_space_def py_simps)
  ultimately show ?thesis
    using example_drop_run example_drop_flushed by blast
qed




subsection \<open>Runs of the relation\<close>

lemma loop_exec_chunk_loop:
  "\<exists>n\<le>length ps. loop_exec mx mn mc ps s n (chunk_loop mx mn mc ps s)"
proof (induction ps arbitrary: s)
  case Nil
  show ?case by (auto intro: loop_exec.exhausted)
next
  case (Cons p ps)
  show ?case
  proof (cases "buffer s \<noteq> [] \<and> mx < buffer_len s + int (length p) + 1")
    case over: True
    let ?cs = "emit mn (buffer s) (chunks s)"
    show ?thesis
    proof (cases "mc \<le> int (length ?cs)")
      case True
      with over have eq: "chunk_loop mx mn mc (p # ps) s = \<lparr>chunks = ?cs, buffer = [], buffer_len = 0\<rparr>"
        by (simp add: Let_def)
      have "loop_exec mx mn mc (p # ps) s 1 \<lparr>chunks = ?cs, buffer = [], buffer_len = 0\<rparr>"
        using over True by (intro loop_exec.flush_break) simp_all
      then show ?thesis unfolding eq by (intro exI [of _ 1]) simp
    next
      case False
      let ?s1 = "\<lparr>chunks = ?cs, buffer = [p], buffer_len = 0 + (int (length p) + 1)\<rparr>"
      from False over have eq: "chunk_loop mx mn mc (p # ps) s = chunk_loop mx mn mc ps ?s1"
        by (simp add: Let_def)
      from Cons.IH [of ?s1] obtain n where n: "n \<le> length ps"
          "loop_exec mx mn mc ps ?s1 n (chunk_loop mx mn mc ps ?s1)" by blast
      have "loop_exec mx mn mc (p # ps) s (Suc n) (chunk_loop mx mn mc ps ?s1)"
        using over False n(2) by (intro loop_exec.flush_append [where cs = ?cs]) simp_all
      with n(1) show ?thesis unfolding eq by (intro exI [of _ "Suc n"]) simp
    qed
  next
    case False
    let ?s1 = "\<lparr>chunks = chunks s, buffer = buffer s @ [p],
                buffer_len = buffer_len s + (int (length p) + 1)\<rparr>"
    from False have eq: "chunk_loop mx mn mc (p # ps) s = chunk_loop mx mn mc ps ?s1"
      by auto
    from Cons.IH [of ?s1] obtain n where n: "n \<le> length ps"
        "loop_exec mx mn mc ps ?s1 n (chunk_loop mx mn mc ps ?s1)" by blast
    have "loop_exec mx mn mc (p # ps) s (Suc n) (chunk_loop mx mn mc ps ?s1)"
      using False n(2) by (intro loop_exec.append)
    with n(1) show ?thesis unfolding eq by (intro exI [of _ "Suc n"]) simp
  qed
qed

lemma loop_exec_NilD: "loop_exec mx mn mc [] s n t \<Longrightarrow> t = s \<and> n = 0"
  by (erule loop_exec.cases) simp_all

lemma loop_exec_ConsD:
  assumes "loop_exec mx mn mc (p # ps) s n t"
  shows "if buffer s \<noteq> [] \<and> mx < buffer_len s + int (length p) + 1 then
           if mc \<le> int (length (emit mn (buffer s) (chunks s))) then
             n = 1 \<and> t = \<lparr>chunks = emit mn (buffer s) (chunks s), buffer = [], buffer_len = 0\<rparr>
           else
             (\<exists>m. n = Suc m \<and>
               loop_exec mx mn mc ps
                 \<lparr>chunks = emit mn (buffer s) (chunks s), buffer = [p],
                  buffer_len = 0 + (int (length p) + 1)\<rparr> m t)
         else
           (\<exists>m. n = Suc m \<and>
             loop_exec mx mn mc ps
               \<lparr>chunks = chunks s, buffer = buffer s @ [p],
                buffer_len = buffer_len s + (int (length p) + 1)\<rparr> m t)"
  using assms by (cases rule: loop_exec.cases) auto

lemma loop_exec_determ:
  "loop_exec mx mn mc ps s n t \<Longrightarrow> loop_exec mx mn mc ps s n' t' \<Longrightarrow> t' = t \<and> n' = n"
proof (induction arbitrary: n' t' rule: loop_exec.induct)
  case (exhausted s)
  then show ?case by (simp add: loop_exec_NilD)
next
  case (flush_break s p cs rest)
  from loop_exec_ConsD [OF flush_break.prems] flush_break.hyps show ?case
    by simp
next
  case (flush_append s p cs rest n s')
  from loop_exec_ConsD [OF flush_append.prems] flush_append.hyps(1-4)
  obtain m where m: "n' = Suc m"
      "loop_exec mx mn mc rest
         \<lparr>chunks = cs, buffer = [p], buffer_len = 0 + (int (length p) + 1)\<rparr> m t'"
    by auto
  from flush_append.IH [OF m(2)] m(1) show ?case by simp
next
  case (append s p rest n s')
  from loop_exec_ConsD [OF append.prems] append.hyps(1)
  obtain m where m: "n' = Suc m"
      "loop_exec mx mn mc rest
         \<lparr>chunks = chunks s, buffer = buffer s @ [p],
          buffer_len = buffer_len s + (int (length p) + 1)\<rparr> m t'"
    by auto
  from append.IH [OF m(2)] m(1) show ?case by simp
qed

text \<open>
  C6. The function is total: for every paragraph list and all integer parameters (also
  \<open>min_chars > max_chars\<close>, negative ones) there is a run of the function. In it the loop body
  runs at most once for each paragraph, a single pass over the input, and the run returns
  the list of strings that \<open>chunk_paragraphs\<close> computes. The relation has no rule that ends
  in an exception.
\<close>

theorem chunk_paragraphs_total_single_pass:
  "\<exists>n\<le>length ps. chunk_paragraphs_exec ps mx mn mc n (chunk_paragraphs ps mx mn mc)"
proof -
  obtain n where "n \<le> length ps"
      "loop_exec mx mn mc ps init_state n (chunk_loop mx mn mc ps init_state)"
    using loop_exec_chunk_loop by blast
  then show ?thesis
    by (auto simp: chunk_paragraphs_def intro!: chunk_paragraphs_exec.returns)
qed

text \<open>
  C7. The function is deterministic: two runs on the same paragraphs with the same
  \<open>max_chars\<close>, \<open>min_chars\<close> and \<open>max_chunks\<close> return the same list (after the same number of
  passes through the loop body).
\<close>

theorem chunk_paragraphs_deterministic:
  assumes "chunk_paragraphs_exec ps mx mn mc n out"
    and "chunk_paragraphs_exec ps mx mn mc n' out'"
  shows "out' = out \<and> n' = n"
proof -
  from assms(1) obtain s where s: "loop_exec mx mn mc ps init_state n s" "out = finish mn mc s"
    by (auto elim: chunk_paragraphs_exec.cases)
  from assms(2) obtain s' where s': "loop_exec mx mn mc ps init_state n' s'" "out' = finish mn mc s'"
    by (auto elim: chunk_paragraphs_exec.cases)
  from loop_exec_determ [OF s(1) s'(1)] s(2) s'(2) show ?thesis by simp
qed

lemma example_exec:
  "\<exists>n. chunk_paragraphs_exec [py ''aaaa'', py ''bbbbbbbb''] 6 1 10 n [py ''aaaa'', py ''bbbbbbbb'']"
proof -
  obtain n where "n \<le> length [py ''aaaa'', py ''bbbbbbbb'']"
      "loop_exec 6 1 10 [py ''aaaa'', py ''bbbbbbbb''] init_state n
         (chunk_loop 6 1 10 [py ''aaaa'', py ''bbbbbbbb''] init_state)"
    using loop_exec_chunk_loop by blast
  then have "chunk_paragraphs_exec [py ''aaaa'', py ''bbbbbbbb''] 6 1 10 n
      (chunk_paragraphs [py ''aaaa'', py ''bbbbbbbb''] 6 1 10)"
    unfolding chunk_paragraphs_def by (intro chunk_paragraphs_exec.returns) simp_all
  then show ?thesis unfolding example_run by blast
qed

theorem chunk_paragraphs_total_single_pass_witness:
  "\<exists>n\<le>length [py ''aaaa'', py ''bbbbbbbb''].
     chunk_paragraphs_exec [py ''aaaa'', py ''bbbbbbbb''] 6 1 10 n [py ''aaaa'', py ''bbbbbbbb'']"
  using chunk_paragraphs_total_single_pass [of "[py ''aaaa'', py ''bbbbbbbb'']" 6 1 10] unfolding example_run .

theorem chunk_paragraphs_deterministic_witness:
  "(\<exists>n. chunk_paragraphs_exec [py ''aaaa'', py ''bbbbbbbb''] 6 1 10 n [py ''aaaa'', py ''bbbbbbbb'']) \<and>
   \<not> (\<exists>n. chunk_paragraphs_exec [py ''aaaa'', py ''bbbbbbbb''] 6 1 10 n [])"
proof (intro conjI notI)
  show "\<exists>n. chunk_paragraphs_exec [py ''aaaa'', py ''bbbbbbbb''] 6 1 10 n [py ''aaaa'', py ''bbbbbbbb'']"
    by (rule example_exec)
next
  assume "\<exists>n. chunk_paragraphs_exec [py ''aaaa'', py ''bbbbbbbb''] 6 1 10 n []"
  then obtain n' where a: "chunk_paragraphs_exec [py ''aaaa'', py ''bbbbbbbb''] 6 1 10 n' []" ..
  from example_exec obtain n where
      b: "chunk_paragraphs_exec [py ''aaaa'', py ''bbbbbbbb''] 6 1 10 n [py ''aaaa'', py ''bbbbbbbb'']" ..
  from chunk_paragraphs_deterministic [OF b a] show False by simp
qed

subsection \<open>Embedding requests and the output file\<close>

lemma fetch_embedding_Inr_iff: "(\<exists>v. fetch_embedding r = Inr v) \<longleftrightarrow> embedding_ok r"
  by (auto simp: fetch_embedding_def embedding_ok_def split: outcome.splits option.splits)

lemma embed_chunks_Inr_iff:
  "(\<exists>ds. embed_chunks prov idx cs acc = Inr ds) \<longleftrightarrow>
   (\<forall>i<length cs. embedding_ok (prov (idx + i) (cs ! i)))"
proof (induction cs arbitrary: idx acc)
  case Nil
  show ?case by simp
next
  case (Cons c cs)
  show ?case
  proof (cases "fetch_embedding (prov idx c)")
    case (Inl e)
    then have "\<not> embedding_ok (prov idx c)"
      using fetch_embedding_Inr_iff [of "prov idx c"] by simp
    then have "\<not> (\<forall>i<length (c # cs). embedding_ok (prov (idx + i) ((c # cs) ! i)))"
      by (auto intro: exI [of _ 0])
    with Inl show ?thesis by simp
  next
    case (Inr v)
    then have ok: "embedding_ok (prov idx c)"
      using fetch_embedding_Inr_iff [of "prov idx c"] by auto
    have "(\<forall>i<length (c # cs). embedding_ok (prov (idx + i) ((c # cs) ! i))) \<longleftrightarrow>
          (\<forall>i<length cs. embedding_ok (prov (idx + 1 + i) (cs ! i)))"
      using ok by (auto simp: less_Suc_eq_0_disj)
    with Inr Cons.IH [of "idx + 1" "acc @ [(c, v)]"] show ?thesis by simp
  qed
qed

lemma main_written_iff:
  "written (main a w) \<noteq> None \<longleftrightarrow> raised (main a w) = None"
  by (auto simp: main_def Let_def split: sum.splits)

text \<open>
  C8. With \<open>cs\<close> the chunks \<open>main\<close> sends to the provider: if the request for some chunk
  fails (no response, a status other than 200, a body without the vector, or a vector whose
  length is not 1536), \<open>main\<close> ends with an exception and does not write the output file.
  If the output file is written, no exception was raised and the request for every chunk
  succeeded.
\<close>

theorem embedding_failure_aborts_before_write:
  "(let cs = chunk_paragraphs (extracted w) (max_chars a) (min_chars a) (max_chunks a) in
     ((\<exists>i<length cs. \<not> embedding_ok (post w i (cs ! i))) \<longrightarrow>
        raised (main a w) \<noteq> None \<and> written (main a w) = None) \<and>
     (written (main a w) \<noteq> None \<longrightarrow>
        raised (main a w) = None \<and> (\<forall>i<length cs. embedding_ok (post w i (cs ! i)))))"
proof -
  let ?cs = "chunk_paragraphs (extracted w) (max_chars a) (min_chars a) (max_chunks a)"
  let ?ok = "\<forall>i<length ?cs. embedding_ok (post w i (?cs ! i))"
  have iff: "(\<exists>ds. embed_chunks (post w) 0 ?cs [] = Inr ds) \<longleftrightarrow> ?ok"
    using embed_chunks_Inr_iff [of "post w" 0 ?cs "[]"] by simp
  have 1: "raised (main a w) \<noteq> None \<and> written (main a w) = None" if "\<not> ?ok"
  proof -
    from that iff obtain e where "embed_chunks (post w) 0 ?cs [] = Inl e"
      by (cases "embed_chunks (post w) 0 ?cs []") auto
    then show ?thesis by (simp add: main_def Let_def)
  qed
  have 2: "raised (main a w) = None \<and> ?ok" if "written (main a w) \<noteq> None"
  proof -
    from that have "raised (main a w) = None" using main_written_iff by blast
    moreover have ?ok
    proof (rule ccontr)
      assume "\<not> ?ok"
      from 1 [OF this] that show False by simp
    qed
    ultimately show ?thesis by simp
  qed
  from 1 2 show ?thesis unfolding Let_def by blast
qed

theorem embedding_failure_aborts_before_write_witness:
  "\<not> embedding_ok (Response 500 None) \<and>
   raised (main \<lparr>max_chars = 6, min_chars = 1, max_chunks = 10\<rparr>
     \<lparr>pdf_exists = True, api_key = Some (py ''k''),
      extracted = [py ''aaaa'', py ''bbbbbbbb''],
      post = (\<lambda>i c. if i = 0 then Response 200 (Some (replicate 1536 0)) else Response 500 None)\<rparr>)
     \<noteq> None \<and>
   written (main \<lparr>max_chars = 6, min_chars = 1, max_chunks = 10\<rparr>
     \<lparr>pdf_exists = True, api_key = Some (py ''k''),
      extracted = [py ''aaaa'', py ''bbbbbbbb''],
      post = (\<lambda>i c. if i = 0 then Response 200 (Some (replicate 1536 0)) else Response 500 None)\<rparr>)
     = None \<and>
   written (main \<lparr>max_chars = 6, min_chars = 1, max_chunks = 10\<rparr>
     \<lparr>pdf_exists = True, api_key = Some (py ''k''),
      extracted = [py ''aaaa'', py ''bbbbbbbb''],
      post = (\<lambda>i c. Response 200 (Some (replicate 1536 0)))\<rparr>)
     \<noteq> None \<and>
   embedding_ok (Response 200 (Some (replicate 1536 0)))"
proof -
  let ?a = "\<lparr>max_chars = 6, min_chars = 1, max_chunks = 10\<rparr>"
  let ?w1 = "\<lparr>pdf_exists = True, api_key = Some (py ''k''),
      extracted = [py ''aaaa'', py ''bbbbbbbb''],
      post = (\<lambda>i c. if i = 0 then Response 200 (Some (replicate 1536 0)) else Response 500 None)\<rparr>"
  let ?w2 = "\<lparr>pdf_exists = True, api_key = Some (py ''k''),
      extracted = [py ''aaaa'', py ''bbbbbbbb''],
      post = (\<lambda>i c. Response 200 (Some (replicate 1536 0)))\<rparr>"
  have bad: "\<not> embedding_ok (Response 500 None)" by (simp add: embedding_ok_def)
  have good: "embedding_ok (Response 200 (Some (replicate 1536 0)))"
    by (simp add: embedding_ok_def DIM_def)
  let ?cs1 = "chunk_paragraphs (extracted ?w1) (max_chars ?a) (min_chars ?a) (max_chunks ?a)"
  let ?cs2 = "chunk_paragraphs (extracted ?w2) (max_chars ?a) (min_chars ?a) (max_chunks ?a)"
  have cs1: "?cs1 = [py ''aaaa'', py ''bbbbbbbb'']" and cs2: "?cs2 = [py ''aaaa'', py ''bbbbbbbb'']"
    by (simp_all add: example_run)
  from embedding_failure_aborts_before_write [of ?w1 ?a]
  have "(\<exists>i<length ?cs1. \<not> embedding_ok (post ?w1 i (?cs1 ! i))) \<longrightarrow>
        raised (main ?a ?w1) \<noteq> None \<and> written (main ?a ?w1) = None"
    unfolding Let_def by (rule conjunct1)
  moreover have "\<exists>i<length ?cs1. \<not> embedding_ok (post ?w1 i (?cs1 ! i))"
    unfolding cs1 using bad by (intro exI [of _ 1]) simp
  ultimately have 1: "raised (main ?a ?w1) \<noteq> None \<and> written (main ?a ?w1) = None"
    by (rule mp)
  have key: "py ''k'' \<noteq> []" by (simp add: py_def)
  have w: "written (main ?a ?w2) \<noteq> None"
    by (simp add: main_def example_run fetch_embedding_def DIM_def key)
  from embedding_failure_aborts_before_write [of ?w2 ?a]
  have "written (main ?a ?w2) \<noteq> None \<longrightarrow>
        raised (main ?a ?w2) = None \<and> (\<forall>i<length ?cs2. embedding_ok (post ?w2 i (?cs2 ! i)))"
    unfolding Let_def by (rule conjunct2)
  with w have "\<forall>i<length ?cs2. embedding_ok (post ?w2 i (?cs2 ! i))" by blast
  moreover have "0 < length ?cs2" unfolding cs2 by simp
  ultimately have "embedding_ok (post ?w2 0 (?cs2 ! 0))" by blast
  then have "embedding_ok (Response 200 (Some (replicate 1536 0)))" by simp
  with bad 1 w show ?thesis by simp
qed

end
